theory Spec2Isabelle
  imports Main
begin

section \<open>Text and characters\<close>

text \<open>
  Source text is a list of characters. A Python string is a sequence of code points;
  the model covers text whose code points are below 256, one \<open>char\<close> per code point.
\<close>

abbreviation NL :: char where "NL \<equiv> CHR 0x0A"
abbreviation CR :: char where "CR \<equiv> CHR 0x0D"
abbreviation TAB :: char where "TAB \<equiv> CHR 0x09"
abbreviation FF :: char where "FF \<equiv> CHR 0x0C"
abbreviation BSL :: char where "BSL \<equiv> CHR 0x5C"
abbreviation SQ :: char where "SQ \<equiv> CHR 0x27"
abbreviation DQ :: char where "DQ \<equiv> CHR 0x22"

section \<open>Regular expressions with backtracking semantics\<close>

text \<open>
  The patterns of \<open>tokenize.py\<close> are compiled by Python's \<open>re\<close> module, a backtracking
  matcher: an alternation tries its branches from left to right, \<open>*\<close>, \<open>+\<close> and \<open>?\<close> are
  greedy, and the first way of matching that succeeds is the match. \<open>ends r s\<close> lists, in
  that order of preference, the number of characters every way of matching \<open>r\<close> at the
  start of \<open>s\<close> consumes; the head of the list is what \<open>re.match\<close> returns.
\<close>

datatype rx =
    Eps
  | Cls "char list"
  | NCls "char list"
  | Dot
  | Word
  | Seq rx rx
  | Alt rx rx
  | Star rx
  | NotAhead rx

text \<open>
  \<open>\w\<close> under \<open>re.UNICODE\<close>: the alphanumeric code points and the underscore (here: those
  below 256).
\<close>

definition word_char :: "char \<Rightarrow> bool" where
  "word_char c = (let n = (of_char c :: nat) in
     (48 \<le> n \<and> n \<le> 57) \<or> (65 \<le> n \<and> n \<le> 90) \<or> n = 95 \<or> (97 \<le> n \<and> n \<le> 122)
     \<or> n \<in> {170, 178, 179, 181, 185, 186, 188, 189, 190}
     \<or> (192 \<le> n \<and> n \<le> 214) \<or> (216 \<le> n \<and> n \<le> 246) \<or> 248 \<le> n)"

text \<open>One character of a class: the single way of matching it consumes one character.\<close>

definition one_char :: "(char \<Rightarrow> bool) \<Rightarrow> string \<Rightarrow> nat list" where
  "one_char p s = (case s of [] \<Rightarrow> [] | c # _ \<Rightarrow> if p c then [1] else [])"

text \<open>
  Greedy repetition of a matcher \<open>f\<close>: one more round in every way \<open>f\<close> allows (a round
  that consumes nothing is not repeated), and last of all no round. \<open>k\<close> bounds the
  rounds; the length of the text is enough, since every round consumes a character.
\<close>

fun star_ends :: "(string \<Rightarrow> nat list) \<Rightarrow> nat \<Rightarrow> string \<Rightarrow> nat list" where
  "star_ends f 0 s = [0]"
| "star_ends f (Suc k) s =
     concat (map (\<lambda>n. if n = 0 then [] else map ((+) n) (star_ends f k (drop n s))) (f s)) @ [0]"

primrec ends :: "rx \<Rightarrow> string \<Rightarrow> nat list" where
  "ends Eps s = [0]"
| "ends (Cls cs) s = one_char (\<lambda>c. c \<in> set cs) s"
| "ends (NCls cs) s = one_char (\<lambda>c. c \<notin> set cs) s"
| "ends Dot s = one_char (\<lambda>c. c \<noteq> NL) s"
| "ends Word s = one_char word_char s"
| "ends (Seq r1 r2) s = concat (map (\<lambda>n. map ((+) n) (ends r2 (drop n s))) (ends r1 s))"
| "ends (Alt r1 r2) s = ends r1 s @ ends r2 s"
| "ends (Star r) s = star_ends (ends r) (length s) s"
| "ends (NotAhead r) s = (if ends r s = [] then [0] else [])"

text \<open>\<open>prog.match(line, pos)\<close>, as the position where the match ends.\<close>

definition rx_match :: "rx \<Rightarrow> string \<Rightarrow> nat \<Rightarrow> nat option" where
  "rx_match r line pos = (case ends r (drop pos line) of [] \<Rightarrow> None | n # _ \<Rightarrow> Some (pos + n))"

subsection \<open>Building patterns\<close>

definition Chr :: "char \<Rightarrow> rx" where
  "Chr c = Cls [c]"

definition plus :: "rx \<Rightarrow> rx" where
  "plus r = Seq r (Star r)"

text \<open>Concatenation of pattern strings.\<close>

fun cat :: "rx list \<Rightarrow> rx" where
  "cat [] = Eps"
| "cat [r] = r"
| "cat (r # rs) = Seq r (cat rs)"

text \<open>\<open>group(*choices)\<close>: \<open>'(' + '|'.join(choices) + ')'\<close>.\<close>

fun group :: "rx list \<Rightarrow> rx" where
  "group [] = Eps"
| "group [r] = r"
| "group (r # rs) = Alt r (group rs)"

text \<open>\<open>maybe(*choices)\<close>: \<open>group(*choices) + '?'\<close>.\<close>

definition maybe :: "rx list \<Rightarrow> rx" where
  "maybe choices = Alt (group choices) Eps"

section \<open>The lexical grammar\<close>

definition digit :: rx where
  "digit = Cls ''0123456789''"

definition whitespace :: rx where
  "whitespace = Star (Cls [CHR '' '', FF, TAB])"

definition comment :: rx where
  "comment = Seq (Chr CHR ''#'') (Star (NCls [CR, NL]))"

definition name :: rx where
  "name = plus Word"

definition hex_number :: rx where
  "hex_number = cat [Chr CHR ''0'', Cls ''xX'', plus (Cls ''0123456789abcdefABCDEF'')]"

definition bin_number :: rx where
  "bin_number = cat [Chr CHR ''0'', Cls ''bB'', plus (Cls ''01'')]"

definition oct_number :: rx where
  "oct_number = cat [Chr CHR ''0'', Cls ''oO'', plus (Cls ''01234567'')]"

definition dec_number :: rx where
  "dec_number = Alt (plus (Chr CHR ''0'')) (Seq (Cls ''123456789'') (Star digit))"

definition int_number :: rx where
  "int_number = group [hex_number, bin_number, oct_number, dec_number]"

definition exponent :: rx where
  "exponent = cat [Cls ''eE'', maybe [Cls ''-+''], plus digit]"

definition point_float :: rx where
  "point_float =
     Seq (group [cat [plus digit, Chr CHR ''.'', Star digit], Seq (Chr CHR ''.'') (plus digit)])
         (maybe [exponent])"

definition Expfloat :: rx where
  "Expfloat = Seq (plus digit) exponent"

definition float_number :: rx where
  "float_number = group [point_float, Expfloat]"

definition imag_number :: rx where
  "imag_number = group [Seq (plus digit) (Cls ''jJ''), Seq float_number (Cls ''jJ'')]"

definition number :: rx where
  "number = group [imag_number, float_number, int_number]"

text \<open>Tail end of a string opened by the quote character \<open>q\<close>: \<open>single\<close> and \<open>double\<close>.\<close>

definition tail1 :: "char \<Rightarrow> rx" where
  "tail1 q = cat [Star (NCls [q, BSL]), Star (cat [Chr BSL, Dot, Star (NCls [q, BSL])]), Chr q]"

definition single :: rx where
  "single = tail1 SQ"

definition double :: rx where
  "double = tail1 DQ"

text \<open>Tail end of a triple-quoted string: \<open>single3\<close> and \<open>double3\<close>.\<close>

definition tail3 :: "char \<Rightarrow> rx" where
  "tail3 q =
     cat [Star (NCls [q, BSL]),
          Star (cat [Alt (Seq (Chr BSL) Dot) (Seq (Chr q) (NotAhead (Seq (Chr q) (Chr q)))),
                     Star (NCls [q, BSL])]),
          Chr q, Chr q, Chr q]"

definition single3 :: rx where
  "single3 = tail3 SQ"

definition double3 :: rx where
  "double3 = tail3 DQ"

definition triple :: rx where
  "triple = group [cat [maybe [Cls ''bB''], maybe [Cls ''rR''], Chr SQ, Chr SQ, Chr SQ],
                   cat [maybe [Cls ''bB''], maybe [Cls ''rR''], Chr DQ, Chr DQ, Chr DQ]]"

definition operator :: rx where
  "operator = group [
     cat [Chr CHR ''*'', Chr CHR ''*'', maybe [Chr CHR ''='']],
     cat [Chr CHR ''>'', Chr CHR ''>'', maybe [Chr CHR ''='']],
     cat [Chr CHR ''<'', Chr CHR ''<'', maybe [Chr CHR ''='']],
     cat [Chr CHR ''!'', Chr CHR ''=''],
     cat [Chr CHR ''/'', Chr CHR ''/'', maybe [Chr CHR ''='']],
     cat [Chr CHR ''-'', Chr CHR ''>''],
     cat [Cls ''+-*/%&|^=<>'', maybe [Chr CHR ''='']],
     Chr CHR ''~'']"

definition bracket :: rx where
  "bracket = Cls ''][(){}''"

definition special :: rx where
  "special = group [Seq (maybe [Chr CR]) (Chr NL),
                    cat [Chr CHR ''.'', Chr CHR ''.'', Chr CHR ''.''],
                    Cls '':;.,@'']"

definition funny :: rx where
  "funny = group [operator, bracket, special]"

text \<open>First (or only) line of a string opened by the quote character \<open>q\<close>.\<close>

definition cont1 :: "char \<Rightarrow> rx" where
  "cont1 q =
     cat [maybe [Cls ''bBuU''], maybe [Cls ''rR''], Chr q,
          Star (NCls [NL, q, BSL]),
          Star (cat [Chr BSL, Dot, Star (NCls [NL, q, BSL])]),
          group [Chr q, cat [Chr BSL, maybe [Chr CR], Chr NL]]]"

definition cont_str :: rx where
  "cont_str = group [cont1 SQ, cont1 DQ]"

definition pseudo_extras :: rx where
  "pseudo_extras = group [cat [Chr BSL, maybe [Chr CR], Chr NL], comment, triple]"

text \<open>The second group of \<open>pseudo_token\<close>; the first is \<open>whitespace\<close>.\<close>

definition pseudo_body :: rx where
  "pseudo_body = group [pseudo_extras, number, funny, cont_str, name]"

text \<open>
  \<open>pseudoprog.match(line, pos)\<close>: \<open>None\<close> when there is no match, else \<open>group(1)\<close>
  and \<open>span(2)\<close>. The pattern is \<open>whitespace\<close> followed by \<open>pseudo_body\<close>; the matcher
  tries every extent of the whitespace, longest first.
\<close>

definition pseudomatch :: "string \<Rightarrow> nat \<Rightarrow> (string \<times> nat \<times> nat) option" where
  "pseudomatch line pos =
     (case concat (map (\<lambda>w. map (\<lambda>n. (w, n)) (ends pseudo_body (drop (pos + w) line)))
                       (ends whitespace (drop pos line))) of
        [] \<Rightarrow> None
      | (w, n) # _ \<Rightarrow> Some (take w (drop pos line), pos + w, pos + w + n))"

section \<open>Tokens\<close>

datatype toktype =
  ENDMARKER | NAME | NUMBER | STRING | NEWLINE | INDENT | DEDENT | OP | ERRORTOKEN | COMMENT

text \<open>\<open>Token(type, value, start_pos, prefix)\<close>; \<open>start_pos\<close> is \<open>(line, column)\<close>.\<close>

datatype token =
  Token (tok_type: toktype) (tok_value: string) (start_pos: "int \<times> int") (tok_prefix: string)

text \<open>What the Python code can raise.\<close>

datatype fault =
  IndexError | KeyError | AssertionError | AttributeError | UnboundLocalError | TypeError

text \<open>\<open>value.split('\n')\<close>.\<close>

fun split_acc :: "string \<Rightarrow> string \<Rightarrow> string list" where
  "split_acc acc [] = [acc]"
| "split_acc acc (c # cs) = (if c = NL then acc # split_acc [] cs else split_acc (acc @ [c]) cs)"

definition split_nl :: "string \<Rightarrow> string list" where
  "split_nl v = split_acc [] v"

text \<open>\<open>s.endswith(t)\<close>.\<close>

definition endswith :: "string \<Rightarrow> string \<Rightarrow> bool" where
  "endswith s t = (length t \<le> length s \<and> drop (length s - length t) s = t)"

text \<open>
  \<open>Token.end_pos\<close>. \<open>lines[-1] += '\n'\<close> raises on an empty list, and so does \<open>lines[-1]\<close>.
\<close>

definition end_pos :: "token \<Rightarrow> fault + (int \<times> int)" where
  "end_pos t =
     (let start_pos_line = fst (start_pos t);
          start_pos_col = snd (start_pos t);
          lines0 = split_nl (tok_value t)
      in case (if endswith (tok_value t) [NL]
               then (let ls = butlast lines0
                     in if ls = [] then Inl IndexError
                        else Inr (butlast ls @ [last ls @ [NL]]))
               else Inr lines0) of
           Inl e \<Rightarrow> Inl e
         | Inr lines \<Rightarrow>
             let end_pos_line = start_pos_line + (int (length lines) - 1)
             in if lines = [] then Inl IndexError
                else if start_pos_line = end_pos_line
                then Inr (end_pos_line, start_pos_col + int (length (last lines)))
                else Inr (end_pos_line, int (length (last lines))))"

section \<open>The lookup tables\<close>

definition endprogs :: "(string \<times> rx option) list" where
  "endprogs =
    [([SQ], Some single), ([DQ], Some double),
     ([SQ, SQ, SQ], Some single3), ([DQ, DQ, DQ], Some double3),
     (''r'' @ [SQ, SQ, SQ], Some single3), (''r'' @ [DQ, DQ, DQ], Some double3),
     (''b'' @ [SQ, SQ, SQ], Some single3), (''b'' @ [DQ, DQ, DQ], Some double3),
     (''u'' @ [SQ, SQ, SQ], Some single3), (''u'' @ [DQ, DQ, DQ], Some double3),
     (''br'' @ [SQ, SQ, SQ], Some single3), (''br'' @ [DQ, DQ, DQ], Some double3),
     (''R'' @ [SQ, SQ, SQ], Some single3), (''R'' @ [DQ, DQ, DQ], Some double3),
     (''B'' @ [SQ, SQ, SQ], Some single3), (''B'' @ [DQ, DQ, DQ], Some double3),
     (''U'' @ [SQ, SQ, SQ], Some single3), (''U'' @ [DQ, DQ, DQ], Some double3),
     (''bR'' @ [SQ, SQ, SQ], Some single3), (''bR'' @ [DQ, DQ, DQ], Some double3),
     (''Br'' @ [SQ, SQ, SQ], Some single3), (''Br'' @ [DQ, DQ, DQ], Some double3),
     (''BR'' @ [SQ, SQ, SQ], Some single3), (''BR'' @ [DQ, DQ, DQ], Some double3),
     (''r'', None), (''R'', None), (''b'', None), (''B'', None)]"

text \<open>\<open>endprogs.get(key)\<close>: \<open>None\<close> for a missing key and for a key that stores \<open>None\<close>.\<close>

definition endprogs_get :: "string \<Rightarrow> rx option" where
  "endprogs_get k = (case map_of endprogs k of None \<Rightarrow> None | Some v \<Rightarrow> v)"

text \<open>The keys of \<open>triple_quoted\<close> and of \<open>single_quoted\<close>.\<close>

definition triple_quoted :: "string list" where
  "triple_quoted =
    [[SQ, SQ, SQ], [DQ, DQ, DQ],
     ''r'' @ [SQ, SQ, SQ], ''r'' @ [DQ, DQ, DQ], ''R'' @ [SQ, SQ, SQ], ''R'' @ [DQ, DQ, DQ],
     ''b'' @ [SQ, SQ, SQ], ''b'' @ [DQ, DQ, DQ], ''B'' @ [SQ, SQ, SQ], ''B'' @ [DQ, DQ, DQ],
     ''u'' @ [SQ, SQ, SQ], ''u'' @ [DQ, DQ, DQ], ''U'' @ [SQ, SQ, SQ], ''U'' @ [DQ, DQ, DQ],
     ''br'' @ [SQ, SQ, SQ], ''br'' @ [DQ, DQ, DQ], ''Br'' @ [SQ, SQ, SQ], ''Br'' @ [DQ, DQ, DQ],
     ''bR'' @ [SQ, SQ, SQ], ''bR'' @ [DQ, DQ, DQ], ''BR'' @ [SQ, SQ, SQ], ''BR'' @ [DQ, DQ, DQ]]"

definition single_quoted :: "string list" where
  "single_quoted =
    [[SQ], [DQ],
     ''r'' @ [SQ], ''r'' @ [DQ], ''R'' @ [SQ], ''R'' @ [DQ],
     ''b'' @ [SQ], ''b'' @ [DQ], ''B'' @ [SQ], ''B'' @ [DQ],
     ''u'' @ [SQ], ''u'' @ [DQ, DQ], ''U'' @ [SQ], ''U'' @ [DQ],
     ''br'' @ [SQ], ''br'' @ [DQ], ''Br'' @ [SQ], ''Br'' @ [DQ],
     ''bR'' @ [SQ], ''bR'' @ [DQ], ''BR'' @ [SQ], ''BR'' @ [DQ]]"

definition ALWAYS_BREAK_TOKEN :: "string list" where
  "ALWAYS_BREAK_TOKEN =
    ['';'', ''import'', ''from'', ''class'', ''def'', ''try'', ''except'', ''finally'',
     ''while'', ''return'']"

definition numchars :: string where
  "numchars = ''0123456789''"

definition namechars :: string where
  "namechars = ''abcdefghijklmnopqrstuvwxyzABCDEFGHIJKLMNOPQRSTUVWXYZ_''"

text \<open>\<open>t in s\<close> for strings: \<open>t\<close> occurs in \<open>s\<close> as a substring.\<close>

fun py_in :: "string \<Rightarrow> string \<Rightarrow> bool" where
  "py_in t [] = (t = [])"
| "py_in t (c # s) = (take (length t) (c # s) = t \<or> py_in t s)"

section \<open>Properties of the matcher\<close>

text \<open>Whether a pattern can match the empty text.\<close>

primrec nullable :: "rx \<Rightarrow> bool" where
  "nullable Eps = True"
| "nullable (Cls cs) = False"
| "nullable (NCls cs) = False"
| "nullable Dot = False"
| "nullable Word = False"
| "nullable (Seq r1 r2) = (nullable r1 \<and> nullable r2)"
| "nullable (Alt r1 r2) = (nullable r1 \<or> nullable r2)"
| "nullable (Star r) = True"
| "nullable (NotAhead r) = True"

lemma one_char_le: "n \<in> set (one_char p s) \<Longrightarrow> n \<le> length s"
  by (auto simp: one_char_def split: list.splits if_splits)

lemma one_char_pos: "n \<in> set (one_char p s) \<Longrightarrow> 0 < n"
  by (auto simp: one_char_def split: list.splits if_splits)

lemma star_ends_le:
  assumes f: "\<And>s n. n \<in> set (f s) \<Longrightarrow> n \<le> length s"
  shows "n \<in> set (star_ends f k s) \<Longrightarrow> n \<le> length s"
proof (induction k arbitrary: s n)
  case 0
  then show ?case by simp
next
  case (Suc k)
  from Suc.prems consider "n = 0"
    | m j where "m \<in> set (f s)" "m \<noteq> 0" "j \<in> set (star_ends f k (drop m s))" "n = m + j"
    by (auto split: if_splits)
  then show ?case
  proof cases
    case 1
    then show ?thesis by simp
  next
    case 2
    from f[OF 2(1)] have "m \<le> length s" .
    moreover from Suc.IH[OF 2(3)] have "j \<le> length s - m" by simp
    ultimately show ?thesis using 2(4) by simp
  qed
qed

lemma ends_le: "n \<in> set (ends r s) \<Longrightarrow> n \<le> length s"
proof (induction r arbitrary: s n)
  case (Seq r1 r2)
  from Seq.prems obtain m j where m: "m \<in> set (ends r1 s)" and j: "j \<in> set (ends r2 (drop m s))"
    and n: "n = m + j" by auto
  from Seq.IH(1)[OF m] Seq.IH(2)[OF j] n show ?case by simp
next
  case (Star r)
  then show ?case using star_ends_le[of "ends r"] by simp
qed (auto simp: one_char_le split: if_splits)

lemma ends_pos: "\<not> nullable r \<Longrightarrow> n \<in> set (ends r s) \<Longrightarrow> 0 < n"
proof (induction r arbitrary: s n)
  case (Seq r1 r2)
  from Seq.prems(2) obtain m j where m: "m \<in> set (ends r1 s)" and j: "j \<in> set (ends r2 (drop m s))"
    and n: "n = m + j" by auto
  from Seq.prems(1) have "\<not> nullable r1 \<or> \<not> nullable r2" by simp
  then show ?case using Seq.IH(1)[OF _ m] Seq.IH(2)[OF _ j] n by auto
qed (auto simp: one_char_pos)

lemma nullable_cat_Cons: "rs \<noteq> [] \<Longrightarrow> nullable (cat (r # rs)) = (nullable r \<and> nullable (cat rs))"
  by (cases rs) auto

lemma pseudo_body_not_nullable: "\<not> nullable pseudo_body"
  by (simp add: pseudo_body_def pseudo_extras_def comment_def triple_def number_def
      imag_number_def float_number_def point_float_def Expfloat_def int_number_def hex_number_def
      bin_number_def oct_number_def dec_number_def funny_def operator_def bracket_def special_def
      cont_str_def cont1_def name_def plus_def Chr_def maybe_def digit_def exponent_def)

lemma pseudomatch_bounds:
  assumes "pseudomatch line pos = Some (pfx, start, e)"
  shows "pos \<le> start \<and> start < e \<and> e \<le> length line \<and> pfx = take (start - pos) (drop pos line)"
proof -
  let ?L = "concat (map (\<lambda>w. map (\<lambda>n. (w, n)) (ends pseudo_body (drop (pos + w) line)))
                       (ends whitespace (drop pos line)))"
  from assms obtain w n rest where L: "?L = (w, n) # rest"
    and r: "pfx = take w (drop pos line)" "start = pos + w" "e = pos + w + n"
    by (auto simp: pseudomatch_def split: list.splits)
  have "(w, n) \<in> set ?L" by (simp add: L)
  then have w: "w \<in> set (ends whitespace (drop pos line))"
    and n: "n \<in> set (ends pseudo_body (drop (pos + w) line))" by auto
  from ends_pos[OF pseudo_body_not_nullable n] have "0 < n" .
  moreover from ends_le[OF n] have "n \<le> length line - (pos + w)" by simp
  ultimately show ?thesis using r by auto
qed

lemma rx_match_bounds: "rx_match r line pos = Some e \<Longrightarrow> pos \<le> e \<and> e \<le> max pos (length line)"
proof -
  assume "rx_match r line pos = Some e"
  then obtain n rest where L: "ends r (drop pos line) = n # rest" and e: "e = pos + n"
    by (auto simp: rx_match_def split: list.splits)
  have "n \<in> set (ends r (drop pos line))" by (simp add: L)
  from ends_le[OF this] e show ?thesis by auto
qed

section \<open>The tokenizer\<close>

text \<open>
  The local variables of \<open>generate_tokens\<close>. \<open>endprog\<close> and \<open>contstr_start\<close> are unbound
  until a string is continued (outer \<open>None\<close>); \<open>endprog\<close> and \<open>contline\<close> can hold
  Python's \<open>None\<close> (inner \<open>None\<close>). \<open>indents\<close> is a Python list: its top is its last
  element.
\<close>

record tstate =
  paren_level :: int
  indents :: "nat list"
  lnum :: int
  contstr :: string
  contstr_start :: "(int \<times> int) option"
  endprog :: "rx option option"
  contline :: "string option"
  new_line :: bool
  prefix :: string

definition init_state :: "int \<Rightarrow> tstate" where
  "init_state line_offset =
     \<lparr>paren_level = 0, indents = [0], lnum = line_offset, contstr = [],
      contstr_start = None, endprog = None, contline = None, new_line = False, prefix = []\<rparr>"

text \<open>
  \<open>while start < indents[-1]: yield Token(DEDENT, '', spos, ''); indents.pop()\<close>
\<close>

function dedent_loop :: "int \<times> int \<Rightarrow> nat \<Rightarrow> nat list \<Rightarrow> fault + (token list \<times> nat list)" where
  "dedent_loop spos start inds =
     (if inds = [] then Inl IndexError
      else if start < last inds
      then (case dedent_loop spos start (butlast inds) of
              Inl e \<Rightarrow> Inl e
            | Inr (toks, inds') \<Rightarrow> Inr (Token DEDENT [] spos [] # toks, inds'))
      else Inr ([], inds))"
  by pat_completeness auto
termination
  by (relation "measure (\<lambda>(spos, start, inds). length inds)") auto

declare dedent_loop.simps [simp del]

text \<open>
  The loop of the indentation-recovery heuristic:
  \<^verbatim>\<open>
  while True:
      indent = indents.pop()
      if indent > start:
          yield Token(DEDENT, '', (lnum, 0), '')
      else:
          indents.append(indent)
          break
  \<close>
\<close>

function break_loop :: "int \<Rightarrow> nat \<Rightarrow> nat list \<Rightarrow> fault + (token list \<times> nat list)" where
  "break_loop ln start inds =
     (if inds = [] then Inl IndexError
      else let indent = last inds; inds1 = butlast inds
           in if indent > start
              then (case break_loop ln start inds1 of
                      Inl e \<Rightarrow> Inl e
                    | Inr (toks, inds') \<Rightarrow> Inr (Token DEDENT [] (ln, 0) [] # toks, inds'))
              else Inr ([], inds1 @ [indent]))"
  by pat_completeness auto
termination
  by (relation "measure (\<lambda>(ln, start, inds). length inds)") auto

declare break_loop.simps [simp del]

text \<open>
  The indentation check at the first token of a fresh line
  (\<open>if new_line and initial not in '\r\n#': ...\<close>).
\<close>

definition indentation ::
  "tstate \<Rightarrow> int \<times> int \<Rightarrow> nat \<Rightarrow> char \<Rightarrow> fault + (token list \<times> tstate)" where
  "indentation st spos start initial =
     (if new_line st \<and> initial \<notin> {CR, NL, CHR ''#''}
      then let st1 = st\<lparr>new_line := False\<rparr>
           in if paren_level st1 = 0
              then if indents st1 = [] then Inl IndexError
                   else let (toks1, inds1) =
                              (if start > last (indents st1)
                               then ([Token INDENT [] spos []], indents st1 @ [start])
                               else ([], indents st1))
                        in case dedent_loop spos start inds1 of
                             Inl e \<Rightarrow> Inl e
                           | Inr (toks2, inds2) \<Rightarrow> Inr (toks1 @ toks2, st1\<lparr>indents := inds2\<rparr>)
              else Inr ([], st1)
      else Inr ([], st))"

text \<open>
  \<open>endprogs.get(initial) or endprogs.get(token[1]) or endprogs.get(token[2])\<close>: the
  first of the three that is not \<open>None\<close>, else the last; \<open>token[1]\<close> and \<open>token[2]\<close> are
  read only when needed and raise out of range.
\<close>

definition resolve_endprog :: "string \<Rightarrow> char \<Rightarrow> fault + rx option" where
  "resolve_endprog token initial =
     (case endprogs_get [initial] of
        Some r \<Rightarrow> Inr (Some r)
      | None \<Rightarrow>
          if \<not> 1 < length token then Inl IndexError
          else case endprogs_get [token ! 1] of
                 Some r \<Rightarrow> Inr (Some r)
               | None \<Rightarrow>
                   if \<not> 2 < length token then Inl IndexError
                   else Inr (endprogs_get [token ! 2]))"

text \<open>
  The \<open>if\<close>/\<open>elif\<close> chain that classifies the match \<open>line[start:pos]\<close>. The result is
  the tokens yielded, the new state, the new \<open>pos\<close>, and whether the inner loop is left
  by \<open>break\<close>.
\<close>

definition classify ::
  "string \<Rightarrow> tstate \<Rightarrow> nat \<Rightarrow> nat \<Rightarrow> fault + (token list \<times> tstate \<times> nat \<times> bool)" where
  "classify line st start pos =
     (let spos = (lnum st, int start);
          token = take (pos - start) (drop start line);
          initial = line ! start
      in
      if initial \<in> set numchars \<or> (initial = CHR ''.'' \<and> token \<noteq> ''.'' \<and> token \<noteq> ''...'')
      then Inr ([Token NUMBER token spos (prefix st)], st, pos, False)
      else if initial \<in> {CR, NL}
      then Inr (if \<not> new_line st \<and> paren_level st = 0
                then [Token NEWLINE token spos (prefix st)] else [],
                st\<lparr>new_line := True\<rparr>, pos, False)
      else if initial = CHR ''#''
      then if endswith token [NL] then Inl AssertionError else Inr ([], st, pos, False)
      else if token \<in> set triple_quoted
      then (case map_of endprogs token of
              None \<Rightarrow> Inl KeyError
            | Some ep \<Rightarrow>
                (case ep of
                   None \<Rightarrow> Inl AttributeError
                 | Some r \<Rightarrow>
                     (case rx_match r line pos of
                        Some pos' \<Rightarrow>
                          Inr ([Token STRING (take (pos' - start) (drop start line)) spos (prefix st)],
                               st\<lparr>endprog := Some ep\<rparr>, pos', False)
                      | None \<Rightarrow>
                          Inr ([], st\<lparr>endprog := Some ep,
                                       contstr_start := Some (lnum st, int start),
                                       contstr := drop start line,
                                       contline := Some line\<rparr>, pos, True))))
      else if [initial] \<in> set single_quoted \<or> take 2 token \<in> set single_quoted
              \<or> take 3 token \<in> set single_quoted
      then if token = [] then Inl IndexError
           else if last token = NL
           then (case resolve_endprog token initial of
                   Inl e \<Rightarrow> Inl e
                 | Inr ep \<Rightarrow>
                     Inr ([], st\<lparr>contstr_start := Some (lnum st, int start),
                                  endprog := Some ep,
                                  contstr := drop start line,
                                  contline := Some line\<rparr>, pos, True))
           else Inr ([Token STRING token spos (prefix st)], st, pos, False)
      else if initial \<in> set namechars
      then if token \<in> set ALWAYS_BREAK_TOKEN
           then (case break_loop (lnum st) start (indents st) of
                   Inl e \<Rightarrow> Inl e
                 | Inr (toks, inds) \<Rightarrow>
                     Inr (toks @ [Token NAME token spos (prefix st)],
                          st\<lparr>paren_level := 0, indents := inds\<rparr>, pos, False))
           else Inr ([Token NAME token spos (prefix st)], st, pos, False)
      else if initial = BSL \<and> drop start line = [BSL, NL]
      then Inr ([], st, pos, False)
      else Inr ([Token OP token spos (prefix st)],
                st\<lparr>paren_level :=
                     (if py_in token ''([{'' then paren_level st + 1
                      else if py_in token '')]}'' then paren_level st - 1
                      else paren_level st)\<rparr>,
                pos, False))"

text \<open>
  One round of \<open>while pos < max\<close>: no match yields an \<open>ERRORTOKEN\<close> (with the default
  prefix \<open>''\<close>) and moves one character on; a match sets \<open>prefix\<close>, runs the indentation
  check and classifies the token.
\<close>

definition scan_step ::
  "string \<Rightarrow> tstate \<Rightarrow> nat \<Rightarrow> fault + (token list \<times> tstate \<times> nat \<times> bool)" where
  "scan_step line st pos =
     (case pseudomatch line pos of
        None \<Rightarrow>
          if \<not> pos < length line then Inl IndexError
          else let txt = (if line ! pos \<in> {DQ, SQ} then drop pos line else [line ! pos])
               in Inr ([Token ERRORTOKEN txt (lnum st, int pos) []], st, pos + 1, False)
      | Some (pfx, start, pos') \<Rightarrow>
          if \<not> start < length line then Inl IndexError
          else let st1 = st\<lparr>prefix := pfx\<rparr>
               in case indentation st1 (lnum st1, int start) start (line ! start) of
                    Inl e \<Rightarrow> Inl e
                  | Inr (toks1, st2) \<Rightarrow>
                      (case classify line st2 start pos' of
                         Inl e \<Rightarrow> Inl e
                       | Inr (toks2, st3, pos'', brk) \<Rightarrow> Inr (toks1 @ toks2, st3, pos'', brk)))"

subsection \<open>One round of the inner loop, case by case\<close>

lemma endprogs_get_simps:
  "endprogs_get [SQ] = Some single" "endprogs_get [DQ] = Some double"
  "endprogs_get ''r'' = None" "endprogs_get ''R'' = None" "endprogs_get ''b'' = None"
  "endprogs_get ''B'' = None" "endprogs_get ''u'' = None" "endprogs_get ''U'' = None"
  by (simp_all add: endprogs_get_def endprogs_def)

lemma sq1: "[c] \<in> set single_quoted \<longleftrightarrow> c = SQ \<or> c = DQ"
  by (simp add: single_quoted_def)

lemma sq2: "[a, b] \<in> set single_quoted \<Longrightarrow> a \<in> set ''rRbBuU'' \<and> (b = SQ \<or> b = DQ)"
  by (simp add: single_quoted_def) blast

lemma sq3: "[a, b, c] \<in> set single_quoted \<Longrightarrow>
    a \<in> set ''bBu'' \<and> (b \<in> set ''rR'' \<or> b = DQ) \<and> (c = SQ \<or> c = DQ)"
  by (simp add: single_quoted_def) blast


lemma resolve_endprog_ok:
  assumes "[c0] \<in> set single_quoted \<or> take 2 (c0 # rest) \<in> set single_quoted
              \<or> take 3 (c0 # rest) \<in> set single_quoted"
  shows "\<exists>r. resolve_endprog (c0 # rest) c0 = Inr (Some r)"
proof (cases "[c0] \<in> set single_quoted")
  case True
  then have "c0 = SQ \<or> c0 = DQ" by (simp add: sq1)
  then show ?thesis by (auto simp: resolve_endprog_def endprogs_get_simps)
next
  case n1: False
  show ?thesis
  proof (cases rest)
    case Nil
    with assms n1 show ?thesis by simp
  next
    case (Cons c1 rest1)
    show ?thesis
    proof (cases "[c0, c1] \<in> set single_quoted")
      case True
      from sq2[OF this] show ?thesis unfolding Cons
        by (auto simp: resolve_endprog_def endprogs_get_simps)
    next
      case n2: False
      show ?thesis
      proof (cases rest1)
        case Nil
        with assms n1 n2 Cons show ?thesis by simp
      next
        case c2: (Cons c2 rest2)
        with assms n1 n2 Cons have "[c0, c1, c2] \<in> set single_quoted" by simp
        from sq3[OF this] show ?thesis unfolding Cons c2
          by (auto simp: resolve_endprog_def endprogs_get_simps)
      qed
    qed
  qed
qed


lemma take_drop_hd: "take n (drop i l) \<noteq> [] \<Longrightarrow> take n (drop i l) = l ! i # tl (take n (drop i l))"
  by (cases "drop i l") (auto simp: take_Cons' nth_via_drop split: if_splits)


lemma classify_cases:
  assumes "classify line st start pos = Inr (toks, st', pos', brk)"
  obtains
    (number) "toks = [Token NUMBER (take (pos - start) (drop start line)) (lnum st, int start) (prefix st)]"
      "st' = st" "pos' = pos" "\<not> brk"
      "line ! start \<in> set numchars \<or> line ! start = CHR ''.''"
  | (newline) "line ! start \<in> {CR, NL}"
      "toks = (if \<not> new_line st \<and> paren_level st = 0
               then [Token NEWLINE (take (pos - start) (drop start line)) (lnum st, int start) (prefix st)]
               else [])"
      "st' = st\<lparr>new_line := True\<rparr>" "pos' = pos" "\<not> brk"
  | (comment) "line ! start = CHR ''#''" "toks = []" "st' = st" "pos' = pos" "\<not> brk"
  | (triple_line) r where "rx_match r line pos = Some pos'"
      "toks = [Token STRING (take (pos' - start) (drop start line)) (lnum st, int start) (prefix st)]"
      "st' = st\<lparr>endprog := Some (Some r)\<rparr>" "\<not> brk"
      "take (pos - start) (drop start line) \<in> set triple_quoted" "line ! start \<notin> {CR, NL, CHR ''#''}"
  | (continued) ep where "ep \<noteq> None" "toks = []"
      "st' = st\<lparr>contstr_start := Some (lnum st, int start), endprog := Some ep,
                 contstr := drop start line, contline := Some line\<rparr>" "pos' = pos" "brk"
      "line ! start \<notin> {CR, NL, CHR ''#''}"
  | (string) "toks = [Token STRING (take (pos - start) (drop start line)) (lnum st, int start) (prefix st)]"
      "st' = st" "pos' = pos" "\<not> brk"
      "line ! start \<notin> {CR, NL, CHR ''#''}"
      "[line ! start] \<in> set single_quoted \<or> take 2 (take (pos - start) (drop start line)) \<in> set single_quoted
        \<or> take 3 (take (pos - start) (drop start line)) \<in> set single_quoted"
  | (name_break) toks0 inds where "break_loop (lnum st) start (indents st) = Inr (toks0, inds)"
      "toks = toks0 @ [Token NAME (take (pos - start) (drop start line)) (lnum st, int start) (prefix st)]"
      "st' = st\<lparr>paren_level := 0, indents := inds\<rparr>" "pos' = pos" "\<not> brk"
      "line ! start \<in> set namechars"
  | (name) "toks = [Token NAME (take (pos - start) (drop start line)) (lnum st, int start) (prefix st)]"
      "st' = st" "pos' = pos" "\<not> brk"
      "line ! start \<in> set namechars"
  | (backslash) "toks = []" "st' = st" "pos' = pos" "\<not> brk" "drop start line = [BSL, NL]"
  | (op) d where
      "d = (if py_in (take (pos - start) (drop start line)) ''([{'' then 1
            else if py_in (take (pos - start) (drop start line)) '')]}'' then - 1 else 0)"
      "toks = [Token OP (take (pos - start) (drop start line)) (lnum st, int start) (prefix st)]"
      "st' = st\<lparr>paren_level := paren_level st + d\<rparr>" "pos' = pos" "\<not> brk"
      "line ! start \<notin> {CR, NL, CHR ''#''}"
      "\<not> (line ! start = BSL \<and> drop start line = [BSL, NL])"
proof -
  let ?token = "take (pos - start) (drop start line)"
  let ?initial = "line ! start"
  note d = classify_def Let_def
  show thesis
  proof (cases "?initial \<in> set numchars \<or> (?initial = CHR ''.'' \<and> ?token \<noteq> ''.'' \<and> ?token \<noteq> ''...'')")
    case True
    from assms[unfolded d if_P[OF True]] True show ?thesis by (intro number) auto
  next
    case c1: False
    show ?thesis
    proof (cases "?initial \<in> {CR, NL}")
      case True
      from assms[unfolded d if_not_P[OF c1] if_P[OF True]] True show ?thesis
        by (intro newline) auto
    next
      case c2: False
      show ?thesis
      proof (cases "?initial = CHR ''#''")
        case True
        from assms[unfolded d if_not_P[OF c1] if_not_P[OF c2] if_P[OF True]] True show ?thesis
          by (intro comment) (auto split: if_splits)
      next
        case c3: False
        show ?thesis
        proof (cases "?token \<in> set triple_quoted")
          case True
          note a = assms[unfolded d if_not_P[OF c1] if_not_P[OF c2] if_not_P[OF c3] if_P[OF True]]
          from a obtain r where ep: "map_of endprogs ?token = Some (Some r)"
            by (auto split: option.splits)
          show ?thesis
          proof (cases "rx_match r line pos")
            case None
            with a ep c2 c3 show ?thesis by (intro continued[of "Some r"]) auto
          next
            case (Some e)
            with a ep c2 c3 True show ?thesis by (intro triple_line[of r]) auto
          qed
        next
          case c4: False
          show ?thesis
          proof (cases "[?initial] \<in> set single_quoted \<or> take 2 ?token \<in> set single_quoted
              \<or> take 3 ?token \<in> set single_quoted")
            case True
            note a = assms[unfolded d if_not_P[OF c1] if_not_P[OF c2] if_not_P[OF c3]
                if_not_P[OF c4] if_P[OF True]]
            show ?thesis
            proof (cases "last ?token = NL")
              case l: True
              with a obtain ep where "resolve_endprog ?token ?initial = Inr ep"
                by (auto split: if_splits sum.splits)
              then have ep: "resolve_endprog ?token ?initial = Inr ep" .
              from a have ne: "?token \<noteq> []" by (auto split: if_splits)
              then have "?token = ?initial # tl ?token" by (rule take_drop_hd)
              with True resolve_endprog_ok[of ?initial "tl ?token"] ep have "ep \<noteq> None"
                by auto
              with a l ne ep c2 c3 show ?thesis by (intro continued[of ep]) auto
            next
              case False
              with a c2 c3 True show ?thesis by (intro string) (auto split: if_splits)
            qed
          next
            case c5: False
            note b = assms[unfolded d if_not_P[OF c1] if_not_P[OF c2] if_not_P[OF c3]
                if_not_P[OF c4] if_not_P[OF c5]]
            show ?thesis
            proof (cases "?initial \<in> set namechars")
              case True
              note a = b[unfolded if_P[OF True]]
              show ?thesis
              proof (cases "?token \<in> set ALWAYS_BREAK_TOKEN")
                case True
                with a obtain toks0 inds where
                  bl: "break_loop (lnum st) start (indents st) = Inr (toks0, inds)"
                  by (auto split: sum.splits)
                with a True \<open>?initial \<in> set namechars\<close> show ?thesis
                  by (intro name_break[of toks0 inds]) auto
              next
                case False
                with a \<open>?initial \<in> set namechars\<close> show ?thesis by (intro name) auto
              qed
            next
              case c6: False
              note b6 = b[unfolded if_not_P[OF c6]]
              show ?thesis
              proof (cases "?initial = BSL \<and> drop start line = [BSL, NL]")
                case True
                from b6[unfolded if_P[OF True]] True show ?thesis by (intro backslash) auto
              next
                case False
                from b6[unfolded if_not_P[OF False]] c2 c3 False show ?thesis
                  by (intro op[of "if py_in ?token ''([{'' then 1 else if py_in ?token '')]}'' then -1 else 0"])
                     (auto split: if_splits)
              qed
            qed
          qed
        qed
      qed
    qed
  qed
qed

lemma classify_pos:
  assumes "classify line st start pos = Inr (toks, st', pos', brk)"
  shows "pos \<le> pos' \<and> pos' \<le> max pos (length line)"
  using assms
proof (cases rule: classify_cases)
  case (triple_line r)
  from rx_match_bounds[OF triple_line(1)] show ?thesis .
next
  case number
  from \<open>pos' = pos\<close> show ?thesis by simp
next
  case newline
  from \<open>pos' = pos\<close> show ?thesis by simp
next
  case comment
  from \<open>pos' = pos\<close> show ?thesis by simp
next
  case (continued ep)
  from \<open>pos' = pos\<close> show ?thesis by simp
next
  case string
  from \<open>pos' = pos\<close> show ?thesis by simp
next
  case (name_break toks0 inds)
  from \<open>pos' = pos\<close> show ?thesis by simp
next
  case name
  from \<open>pos' = pos\<close> show ?thesis by simp
next
  case backslash
  from \<open>pos' = pos\<close> show ?thesis by simp
next
  case (op d)
  from \<open>pos' = pos\<close> show ?thesis by simp
qed

lemma scan_step_advance:
  assumes "scan_step line st pos = Inr (toks, st', pos', brk)"
  shows "pos < pos' \<and> pos' \<le> length line"
proof (cases "pseudomatch line pos")
  case None
  with assms show ?thesis by (auto simp: scan_step_def Let_def split: if_splits)
next
  case (Some m)
  obtain pfx start e where m: "m = (pfx, start, e)" by (cases m)
  from pseudomatch_bounds[OF Some[unfolded m]]
  have b: "pos \<le> start" "start < e" "e \<le> length line" by auto
  from assms Some m obtain toks2 st2 where "classify line st2 start e = Inr (toks2, st', pos', brk)"
    by (auto simp: scan_step_def Let_def split: if_splits sum.splits prod.splits)
  from classify_pos[OF this] b show ?thesis by auto
qed

subsection \<open>The loops\<close>

text \<open>\<open>while pos < max: ...\<close> on one line, from \<open>pos\<close>.\<close>

function scan_loop :: "string \<Rightarrow> tstate \<Rightarrow> nat \<Rightarrow> fault + (token list \<times> tstate)" where
  "scan_loop line st pos =
     (if pos < length line
      then case scan_step line st pos of
             Inl e \<Rightarrow> Inl e
           | Inr (toks, st', pos', brk) \<Rightarrow>
               if brk then Inr (toks, st')
               else (case scan_loop line st' pos' of
                       Inl e \<Rightarrow> Inl e
                     | Inr (toks', st'') \<Rightarrow> Inr (toks @ toks', st''))
      else Inr ([], st))"
  by pat_completeness auto
termination
proof (relation "measure (\<lambda>(line, st, pos). length line - pos)")
  show "wf (measure (\<lambda>(line, st, pos). length line - pos))" by simp
next
  fix line :: string and st :: tstate and pos :: nat and x2 x y xa ya xb yb
  assume "pos < length line" "scan_step line st pos = Inr x2" "(x, y) = x2" "(xa, ya) = y"
    "(xb, yb) = ya" "\<not> yb"
  then have "scan_step line st pos = Inr (x, xa, xb, yb)" by simp
  from scan_step_advance[OF this] \<open>pos < length line\<close>
  show "((line, xa, xb), (line, st, pos)) \<in> measure (\<lambda>(line, st, pos). length line - pos)"
    by (simp add: diff_less_mono2)
qed

declare scan_loop.simps [simp del]

text \<open>
  One round of the loop over the lines, for a line that is not empty: the line counter,
  the continued string if one is pending, and the scan of the rest of the line.
\<close>

definition tokenize_line :: "string \<Rightarrow> tstate \<Rightarrow> fault + (token list \<times> tstate)" where
  "tokenize_line line st0 =
     (let st = st0\<lparr>lnum := lnum st0 + 1\<rparr>
      in if contstr st \<noteq> []
         then (case endprog st of
                 None \<Rightarrow> Inl UnboundLocalError
               | Some None \<Rightarrow> Inl AttributeError
               | Some (Some r) \<Rightarrow>
                   (case rx_match r line 0 of
                      Some pos \<Rightarrow>
                        (case contstr_start st of
                           None \<Rightarrow> Inl UnboundLocalError
                         | Some cs \<Rightarrow>
                             (case scan_loop line (st\<lparr>contstr := [], contline := None\<rparr>) pos of
                                Inl e \<Rightarrow> Inl e
                              | Inr (toks, st') \<Rightarrow>
                                  Inr (Token STRING (contstr st @ take pos line) cs (prefix st) # toks,
                                       st')))
                    | None \<Rightarrow>
                        (case contline st of
                           None \<Rightarrow> Inl TypeError
                         | Some cl \<Rightarrow>
                             Inr ([], st\<lparr>contstr := contstr st @ line,
                                          contline := Some (cl @ line)\<rparr>))))
         else scan_loop line st 0)"

text \<open>\<open>if not line: if contstr: yield Token(ERRORTOKEN, contstr, contstr_start, prefix)\<close>\<close>

definition at_eof :: "tstate \<Rightarrow> fault + (token list \<times> tstate)" where
  "at_eof st =
     (if contstr st \<noteq> []
      then (case contstr_start st of
              None \<Rightarrow> Inl UnboundLocalError
            | Some cs \<Rightarrow> Inr ([Token ERRORTOKEN (contstr st) cs (prefix st)], st))
      else Inr ([], st))"

text \<open>
  \<open>while True: line = readline() ...\<close>. The argument is what the successive calls of
  \<open>readline\<close> return; the loop ends at the first empty line and when the calls are
  exhausted.
\<close>

fun lines_loop :: "string list \<Rightarrow> tstate \<Rightarrow> fault + (token list \<times> tstate)" where
  "lines_loop [] st = at_eof st"
| "lines_loop (line # rest) st =
     (if line = [] then at_eof st
      else case tokenize_line line st of
             Inl e \<Rightarrow> Inl e
           | Inr (toks, st') \<Rightarrow>
               (case lines_loop rest st' of
                  Inl e \<Rightarrow> Inl e
                | Inr (toks', st'') \<Rightarrow> Inr (toks @ toks', st'')))"

text \<open>
  \<open>generate_tokens(readline, line_offset)\<close>: the tokens yielded, in order, and the local
  variables when the generator is exhausted.
\<close>

definition generate_tokens :: "string list \<Rightarrow> int \<Rightarrow> fault + (token list \<times> tstate)" where
  "generate_tokens readline line_offset =
     (case lines_loop readline (init_state line_offset) of
        Inl e \<Rightarrow> Inl e
      | Inr (toks, st) \<Rightarrow>
          Inr (toks @ map (\<lambda>indent. Token DEDENT [] (lnum st, 0) []) (tl (indents st))
                    @ [Token ENDMARKER [] (lnum st, 0) (prefix st)],
               st))"

text \<open>
  \<open>StringIO(source).readline\<close>: the lines of \<open>source\<close>, each with its \<open>'\n'\<close>; the last one
  has none when \<open>source\<close> does not end with one.
\<close>

fun readlines_acc :: "string \<Rightarrow> string \<Rightarrow> string list" where
  "readlines_acc acc [] = (if acc = [] then [] else [acc])"
| "readlines_acc acc (c # cs) =
     (if c = NL then (acc @ [c]) # readlines_acc [] cs else readlines_acc (acc @ [c]) cs)"

definition StringIO_readline :: "string \<Rightarrow> string list" where
  "StringIO_readline source = readlines_acc [] source"

text \<open>\<open>source_tokens\<close>: the text handed on is \<open>source + '\n'\<close>.\<close>

definition source_text :: "string \<Rightarrow> string" where
  "source_text source = source @ [NL]"

definition source_tokens :: "string \<Rightarrow> int \<Rightarrow> fault + (token list \<times> tstate)" where
  "source_tokens source line_offset =
     generate_tokens (StringIO_readline (source_text source)) line_offset"

subsection \<open>The two indentation loops\<close>

lemma dedent_loop_Inr:
  "dedent_loop spos start inds = Inr (toks, inds') \<Longrightarrow>
     (\<exists>k. toks = replicate k (Token DEDENT [] spos []) \<and> length inds = length inds' + k)
     \<and> (0 \<in> set inds \<longrightarrow> 0 \<in> set inds')"
proof (induction spos start inds arbitrary: toks inds' rule: dedent_loop.induct)
  case (1 spos start inds)
  show ?case
  proof (cases "inds \<noteq> [] \<and> start < last inds")
    case True
    with "1.prems" obtain toks0 where r: "dedent_loop spos start (butlast inds) = Inr (toks0, inds')"
      and t: "toks = Token DEDENT [] spos [] # toks0"
      by (subst (asm) dedent_loop.simps) (auto split: sum.splits)
    from "1.IH"[OF _ _ r] True obtain k where k: "toks0 = replicate k (Token DEDENT [] spos [])"
      "length (butlast inds) = length inds' + k"
      and z: "0 \<in> set (butlast inds) \<longrightarrow> 0 \<in> set inds'" by auto
    from True have "inds = butlast inds @ [last inds]" "last inds \<noteq> 0" by auto
    then have "0 \<in> set inds \<longrightarrow> 0 \<in> set (butlast inds)"
      by (metis Un_iff empty_iff empty_set set_ConsD set_append)
    moreover from True have "length inds = Suc (length (butlast inds))" by (cases inds) auto
    ultimately show ?thesis using k z t
      by (auto intro!: exI[of _ "Suc k"])
  next
    case False
    with "1.prems" show ?thesis
      by (subst (asm) dedent_loop.simps) (auto split: if_splits)
  qed
qed

lemma dedent_loop_total:
  "0 \<in> set inds \<Longrightarrow> \<exists>r. dedent_loop spos start inds = Inr r"
proof (induction spos start inds rule: dedent_loop.induct)
  case (1 spos start inds)
  show ?case
  proof (cases "start < last inds")
    case True
    from "1.prems" have ne: "inds \<noteq> []" by auto
    then have "inds = butlast inds @ [last inds]" by simp
    with True "1.prems" have "0 \<in> set (butlast inds)"
      by (metis Un_iff empty_iff empty_set not_less_zero set_ConsD set_append)
    from "1.IH"[OF ne True this] ne True show ?thesis
      by (subst dedent_loop.simps) auto
  next
    case False
    with "1.prems" show ?thesis by (subst dedent_loop.simps) auto
  qed
qed

lemma break_loop_Inr:
  "break_loop ln start inds = Inr (toks, inds') \<Longrightarrow>
     (\<exists>k. toks = replicate k (Token DEDENT [] (ln, 0) []) \<and> length inds = length inds' + k)
     \<and> (0 \<in> set inds \<longrightarrow> 0 \<in> set inds')"
proof (induction ln start inds arbitrary: toks inds' rule: break_loop.induct)
  case (1 ln start inds)
  show ?case
  proof (cases "inds \<noteq> [] \<and> start < last inds")
    case True
    with "1.prems" obtain toks0 where r: "break_loop ln start (butlast inds) = Inr (toks0, inds')"
      and t: "toks = Token DEDENT [] (ln, 0) [] # toks0"
      by (subst (asm) break_loop.simps) (auto simp: Let_def split: sum.splits)
    from "1.IH"[OF _ refl refl _ r] True obtain k where k: "toks0 = replicate k (Token DEDENT [] (ln, 0) [])"
      "length (butlast inds) = length inds' + k"
      and z: "0 \<in> set (butlast inds) \<longrightarrow> 0 \<in> set inds'" by auto
    from True have "inds = butlast inds @ [last inds]" "last inds \<noteq> 0" by auto
    then have "0 \<in> set inds \<longrightarrow> 0 \<in> set (butlast inds)"
      by (metis Un_iff empty_iff empty_set set_ConsD set_append)
    moreover from True have "length inds = Suc (length (butlast inds))" by (cases inds) auto
    ultimately show ?thesis using k z t
      by (auto intro!: exI[of _ "Suc k"])
  next
    case False
    with "1.prems" show ?thesis
      by (subst (asm) break_loop.simps) (auto simp: Let_def split: if_splits)
  qed
qed

lemma break_loop_total:
  "0 \<in> set inds \<Longrightarrow> \<exists>r. break_loop ln start inds = Inr r"
proof (induction ln start inds rule: break_loop.induct)
  case (1 ln start inds)
  show ?case
  proof (cases "start < last inds")
    case True
    from "1.prems" have ne: "inds \<noteq> []" by auto
    then have "inds = butlast inds @ [last inds]" by simp
    with True "1.prems" have "0 \<in> set (butlast inds)"
      by (metis Un_iff empty_iff empty_set not_less_zero set_ConsD set_append)
    from "1.IH"[OF ne refl refl True this] ne True show ?thesis
      by (subst break_loop.simps) (auto simp: Let_def)
  next
    case False
    with "1.prems" show ?thesis by (subst break_loop.simps) (auto simp: Let_def)
  qed
qed

subsection \<open>The indentation check\<close>

lemma indentation_cases:
  assumes "indentation st spos start initial = Inr (toks, st')"
  obtains
    (skip) "\<not> new_line st \<or> initial \<in> {CR, NL, CHR ''#''}" "toks = []" "st' = st"
  | (nested) "new_line st" "initial \<notin> {CR, NL, CHR ''#''}" "paren_level st \<noteq> 0" "toks = []"
      "st' = st\<lparr>new_line := False\<rparr>"
  | (fresh) i k inds' where "new_line st" "initial \<notin> {CR, NL, CHR ''#''}" "paren_level st = 0"
      "toks = replicate i (Token INDENT [] spos []) @ replicate k (Token DEDENT [] spos [])"
      "st' = st\<lparr>new_line := False, indents := inds'\<rparr>"
      "length (indents st) + i = length inds' + k"
      "0 \<in> set (indents st) \<longrightarrow> 0 \<in> set inds'"
proof (cases "new_line st \<and> initial \<notin> {CR, NL, CHR ''#''}")
  case False
  with assms show ?thesis by (intro skip) (auto simp: indentation_def)
next
  case c: True
  show ?thesis
  proof (cases "paren_level st = 0")
    case False
    with c assms show ?thesis by (intro nested) (auto simp: indentation_def Let_def)
  next
    case True
    define i :: nat where "i = (if start > last (indents st) then 1 else 0)"
    define inds1 where "inds1 = (if start > last (indents st) then indents st @ [start] else indents st)"
    from assms c True obtain toks2 inds2 where
      d: "dedent_loop spos start inds1 = Inr (toks2, inds2)"
      and t: "toks = replicate i (Token INDENT [] spos []) @ toks2"
      and s: "st' = st\<lparr>new_line := False, indents := inds2\<rparr>"
      by (auto simp: indentation_def Let_def i_def inds1_def split: if_splits sum.splits)
    from dedent_loop_Inr[OF d] obtain k where
      k: "toks2 = replicate k (Token DEDENT [] spos [])" "length inds1 = length inds2 + k"
      and z: "0 \<in> set inds1 \<longrightarrow> 0 \<in> set inds2" by auto
    have "length inds1 = length (indents st) + i" "0 \<in> set (indents st) \<longrightarrow> 0 \<in> set inds1"
      by (auto simp: i_def inds1_def)
    with c True t s k z show ?thesis by (intro fresh[of i k inds2]) auto
  qed
qed

lemma indentation_total:
  assumes "0 \<in> set (indents st)"
  shows "\<exists>r. indentation st spos start initial = Inr r"
proof -
  have "\<exists>r. dedent_loop spos start (indents st @ [start]) = Inr r"
    "\<exists>r. dedent_loop spos start (indents st) = Inr r"
    using assms dedent_loop_total[of "indents st @ [start]" spos start]
      dedent_loop_total[of "indents st" spos start] by auto
  with assms show ?thesis
    by (auto simp: indentation_def Let_def)
qed

subsection \<open>What a line terminator and a comment match\<close>

primrec first_ok :: "rx \<Rightarrow> char \<Rightarrow> bool" where
  "first_ok Eps c = False"
| "first_ok (Cls cs) c = (c \<in> set cs)"
| "first_ok (NCls cs) c = (c \<notin> set cs)"
| "first_ok Dot c = (c \<noteq> NL)"
| "first_ok Word c = word_char c"
| "first_ok (Seq r1 r2) c = (first_ok r1 c \<or> (nullable r1 \<and> first_ok r2 c))"
| "first_ok (Alt r1 r2) c = (first_ok r1 c \<or> first_ok r2 c)"
| "first_ok (Star r) c = first_ok r c"
| "first_ok (NotAhead r) c = False"

lemma one_char_first: "n \<in> set (one_char p (c # s)) \<Longrightarrow> p c"
  by (auto simp: one_char_def split: if_splits)

lemma star_ends_first:
  assumes "n \<in> set (star_ends f k s)" "0 < n"
  shows "\<exists>m \<in> set (f s). 0 < m"
  using assms by (cases k) (auto split: if_splits)

lemma ends_first: "n \<in> set (ends r (c # s)) \<Longrightarrow> 0 < n \<Longrightarrow> first_ok r c"
proof (induction r arbitrary: n)
  case (Seq r1 r2)
  from Seq.prems(1) obtain m j where m: "m \<in> set (ends r1 (c # s))"
    and j: "j \<in> set (ends r2 (drop m (c # s)))" and n: "n = m + j" by auto
  show ?case
  proof (cases "m = 0")
    case True
    with m ends_pos[of r1 0 "c # s"] have "nullable r1" by auto
    moreover from True j n Seq.prems(2) Seq.IH(2)[of j] have "first_ok r2 c" by simp
    ultimately show ?thesis by simp
  next
    case False
    with Seq.IH(1)[OF m] show ?thesis by simp
  qed
next
  case (Star r)
  from star_ends_first[of n "ends r" _ "c # s"] Star.prems
  obtain m where "m \<in> set (ends r (c # s))" "0 < m" by auto
  with Star.IH show ?case by simp
qed (auto dest: one_char_first split: if_splits)

lemma ends_empty: "\<not> nullable r \<Longrightarrow> \<not> first_ok r c \<Longrightarrow> ends r (c # s) = []"
proof (rule ccontr)
  assume a: "\<not> nullable r" "\<not> first_ok r c" and "ends r (c # s) \<noteq> []"
  then obtain n where n: "n \<in> set (ends r (c # s))" by (cases "ends r (c # s)") auto
  from ends_pos[OF a(1) n] ends_first[OF n] a(2) show False by simp
qed

lemmas grammar_defs = pseudo_extras_def comment_def triple_def number_def
      imag_number_def float_number_def point_float_def Expfloat_def int_number_def hex_number_def
      bin_number_def oct_number_def dec_number_def operator_def bracket_def
      cont_str_def cont1_def name_def plus_def Chr_def maybe_def digit_def exponent_def

lemma word_char_simps [simp]:
  "\<not> word_char NL" "\<not> word_char CR" "\<not> word_char (CHR ''#'')"
  by (simp_all add: word_char_def)

lemma ends_body_NL: "ends pseudo_body (NL # s) = [1]"
proof -
  have "ends pseudo_extras (NL # s) = []" "ends number (NL # s) = []"
    "ends operator (NL # s) = []" "ends bracket (NL # s) = []"
    "ends cont_str (NL # s) = []" "ends name (NL # s) = []"
    by (rule ends_empty; simp add: grammar_defs)+
  then show ?thesis
    by (simp add: pseudo_body_def funny_def special_def maybe_def Chr_def one_char_def)
qed

lemma ends_body_CR: "n \<in> set (ends pseudo_body (CR # s)) \<Longrightarrow> n = 2 \<and> (\<exists>s'. s = NL # s')"
proof -
  assume n: "n \<in> set (ends pseudo_body (CR # s))"
  have "ends pseudo_extras (CR # s) = []" "ends number (CR # s) = []"
    "ends operator (CR # s) = []" "ends bracket (CR # s) = []"
    "ends cont_str (CR # s) = []" "ends name (CR # s) = []"
    by (rule ends_empty; simp add: grammar_defs)+
  with n show ?thesis
    by (auto simp: pseudo_body_def funny_def special_def maybe_def Chr_def one_char_def
             split: list.splits if_splits)
qed

lemma one_char_elem: "m \<in> set (one_char p s) \<Longrightarrow> \<exists>c s'. s = c # s' \<and> p c \<and> m = 1"
  by (auto simp: one_char_def split: list.splits if_splits)

lemma star_class:
  "n \<in> set (star_ends (one_char p) k s) \<Longrightarrow> \<forall>c \<in> set (take n s). p c"
proof (induction k arbitrary: n s)
  case 0
  then show ?case by simp
next
  case (Suc k)
  show ?case
  proof (cases "n = 0")
    case True
    then show ?thesis by simp
  next
    case False
    with Suc.prems obtain m j where m: "m \<in> set (one_char p s)"
      and j: "j \<in> set (star_ends (one_char p) k (drop m s))" and n: "n = m + j"
      by (auto split: if_splits)
    from one_char_elem[OF m] obtain c s' where s: "s = c # s'" "p c" "m = 1" by auto
    from Suc.IH[OF j] s show ?thesis by (simp add: n)
  qed
qed

lemma ends_body_hash:
  assumes "n \<in> set (ends pseudo_body (CHR ''#'' # s))"
  shows "NL \<notin> set (take n (CHR ''#'' # s))"
proof -
  have "ends number (CHR ''#'' # s) = []" "ends funny (CHR ''#'' # s) = []"
    "ends cont_str (CHR ''#'' # s) = []" "ends name (CHR ''#'' # s) = []"
    "ends triple (CHR ''#'' # s) = []"
    "ends (cat [Chr BSL, maybe [Chr CR], Chr NL]) (CHR ''#'' # s) = []"
    by (rule ends_empty; simp add: grammar_defs funny_def special_def)+
  with assms have "n \<in> set (ends comment (CHR ''#'' # s))"
    by (simp add: pseudo_body_def pseudo_extras_def)
  then obtain j where j: "j \<in> set (star_ends (ends (NCls [CR, NL])) (length s) s)"
    and n: "n = Suc j"
    by (auto simp: comment_def Chr_def one_char_def)
  have "ends (NCls [CR, NL]) = one_char (\<lambda>c. c \<notin> set [CR, NL])"
    by (rule ext) (simp only: ends.simps)
  with j have "j \<in> set (star_ends (one_char (\<lambda>c. c \<notin> set [CR, NL])) (length s) s)" by simp
  from star_class[OF this] show ?thesis by (auto simp: n)
qed

lemma pseudomatch_ends:
  assumes "pseudomatch line pos = Some (pfx, start, e)"
  shows "e - start \<in> set (ends pseudo_body (drop start line))"
proof -
  let ?L = "concat (map (\<lambda>w. map (\<lambda>n. (w, n)) (ends pseudo_body (drop (pos + w) line)))
                       (ends whitespace (drop pos line)))"
  from assms obtain w n rest where L: "?L = (w, n) # rest"
    and r: "start = pos + w" "e = pos + w + n"
    by (auto simp: pseudomatch_def split: list.splits)
  have "(w, n) \<in> set ?L" by (simp add: L)
  with r show ?thesis by auto
qed

lemma pseudomatch_newline:
  assumes "pseudomatch line pos = Some (pfx, start, e)" "line ! start \<in> {CR, NL}"
  shows "take (e - start) (drop start line) \<in> {[NL], [CR, NL]}
         \<and> NL \<notin> set (take (e - Suc start) (drop start line))"
proof -
  from pseudomatch_bounds[OF assms(1)] have b: "start < e" "e \<le> length line" by auto
  then have d: "drop start line = line ! start # drop (Suc start) line"
    by (simp add: Cons_nth_drop_Suc)
  from pseudomatch_ends[OF assms(1)] have n: "e - start \<in> set (ends pseudo_body (drop start line))" .
  from assms(2) consider "line ! start = NL" | "line ! start = CR" by auto
  then show ?thesis
  proof cases
    case 1
    with n d have "e - start = 1" by (simp add: ends_body_NL)
    with d 1 show ?thesis by simp
  next
    case 2
    with n d ends_body_CR[of "e - start" "drop (Suc start) line"]
    obtain s' where e: "e - start = 2" and "drop (Suc start) line = NL # s'" by auto
    moreover from e have "e - Suc start = 1" by simp
    ultimately show ?thesis using d 2 by (simp add: numeral_2_eq_2)
  qed
qed

lemma pseudomatch_comment:
  assumes "pseudomatch line pos = Some (pfx, start, e)" "line ! start = CHR ''#''"
  shows "\<not> endswith (take (e - start) (drop start line)) [NL]"
proof -
  from pseudomatch_bounds[OF assms(1)] have b: "start < e" "e \<le> length line" by auto
  then have "drop start line = line ! start # drop (Suc start) line"
    by (simp add: Cons_nth_drop_Suc)
  with assms(2) have d: "drop start line = CHR ''#'' # drop (Suc start) line" by simp
  from pseudomatch_ends[OF assms(1)] d
  have "NL \<notin> set (take (e - start) (drop start line))"
    using ends_body_hash[of "e - start" "drop (Suc start) line"] by simp
  moreover have "endswith t [NL] \<Longrightarrow> NL \<in> set t" for t
    by (auto simp: endswith_def dest!: arg_cong[where f = set] intro: in_set_dropD)
  ultimately show ?thesis by blast
qed

subsection \<open>The classification never raises\<close>

lemma triple_quoted_all:
  "list_all (\<lambda>t. \<exists>r. map_of endprogs t = Some (Some r)) triple_quoted"
  by (simp add: triple_quoted_def endprogs_def)

lemma triple_quoted_endprogs:
  "t \<in> set triple_quoted \<Longrightarrow> \<exists>r. map_of endprogs t = Some (Some r)"
  using triple_quoted_all by (simp add: list_all_iff)

lemma classify_total:
  assumes m: "pseudomatch line pos = Some (pfx, start, e)" and z: "0 \<in> set (indents st)"
  shows "\<exists>r. classify line st start e = Inr r"
proof -
  let ?token = "take (e - start) (drop start line)"
  let ?initial = "line ! start"
  from pseudomatch_bounds[OF m] have b: "start < e" "e \<le> length line" by auto
  then have ne: "?token \<noteq> []" by simp
  then have hd: "?token = ?initial # tl ?token" by (rule take_drop_hd)
  note d = classify_def Let_def
  show ?thesis
  proof (cases "?initial \<in> set numchars \<or> (?initial = CHR ''.'' \<and> ?token \<noteq> ''.'' \<and> ?token \<noteq> ''...'')")
    case True
    show ?thesis unfolding d if_P[OF True] by auto
  next
    case c1: False
    show ?thesis
    proof (cases "?initial \<in> {CR, NL}")
      case True
      show ?thesis unfolding d if_not_P[OF c1] if_P[OF True] by auto
    next
      case c2: False
      show ?thesis
      proof (cases "?initial = CHR ''#''")
        case True
        from pseudomatch_comment[OF m True] show ?thesis
          unfolding d if_not_P[OF c1] if_not_P[OF c2] if_P[OF True] by auto
      next
        case c3: False
        show ?thesis
        proof (cases "?token \<in> set triple_quoted")
          case True
          from triple_quoted_endprogs[OF True] show ?thesis
            unfolding d if_not_P[OF c1] if_not_P[OF c2] if_not_P[OF c3] if_P[OF True]
            by (auto split: option.splits)
        next
          case c4: False
          show ?thesis
          proof (cases "[?initial] \<in> set single_quoted \<or> take 2 ?token \<in> set single_quoted
              \<or> take 3 ?token \<in> set single_quoted")
            case True
            from True resolve_endprog_ok[of ?initial "tl ?token"] hd
            obtain r where "resolve_endprog ?token ?initial = Inr (Some r)" by auto
            with ne show ?thesis
              unfolding d if_not_P[OF c1] if_not_P[OF c2] if_not_P[OF c3]
                if_not_P[OF c4] if_P[OF True]
              by auto
          next
            case c5: False
            from break_loop_total[OF z, of "lnum st" start]
            obtain toks inds where "break_loop (lnum st) start (indents st) = Inr (toks, inds)"
              by auto
            then show ?thesis
              unfolding d if_not_P[OF c1] if_not_P[OF c2] if_not_P[OF c3]
                if_not_P[OF c4] if_not_P[OF c5]
              by auto
          qed
        qed
      qed
    qed
  qed
qed

subsection \<open>Properties kept by every move of the tokenizer\<close>

lemma scan_step_cases:
  assumes "scan_step line st pos = Inr (toks, st', pos', brk)"
  obtains
    (error) "pseudomatch line pos = None" "pos < length line"
      "toks = [Token ERRORTOKEN (if line ! pos \<in> {DQ, SQ} then drop pos line else [line ! pos])
                 (lnum st, int pos) []]"
      "st' = st" "pos' = pos + 1" "\<not> brk"
  | (match) pfx start e toks1 st2 toks2 where
      "pseudomatch line pos = Some (pfx, start, e)"
      "indentation (st\<lparr>prefix := pfx\<rparr>) (lnum st, int start) start (line ! start) = Inr (toks1, st2)"
      "classify line st2 start e = Inr (toks2, st', pos', brk)"
      "toks = toks1 @ toks2"
proof (cases "pseudomatch line pos")
  case None
  with assms show ?thesis by (intro error) (auto simp: scan_step_def Let_def split: if_splits)
next
  case (Some m)
  obtain pfx start e where m: "m = (pfx, start, e)" by (cases m)
  from assms Some m obtain toks1 st2 toks2 where
    "indentation (st\<lparr>prefix := pfx\<rparr>) (lnum st, int start) start (line ! start) = Inr (toks1, st2)"
    "classify line st2 start e = Inr (toks2, st', pos', brk)"
    "toks = toks1 @ toks2"
    by (auto simp: scan_step_def Let_def split: if_splits sum.splits)
  with Some m show ?thesis by (intro match[of pfx start e toks1 st2 toks2]) auto
qed

lemma indentation_prefix:
  "indentation st spos start initial = Inr (toks, st') \<Longrightarrow>
     prefix st' = prefix st \<and> lnum st' = lnum st \<and> contstr st' = contstr st
     \<and> paren_level st' = paren_level st \<and> endprog st' = endprog st
     \<and> contstr_start st' = contstr_start st \<and> contline st' = contline st"
  by (erule indentation_cases) auto

text \<open>
  What it takes for a property \<open>P\<close> of the tokens yielded so far and the local variables
  to hold throughout a run: every elementary move of the tokenizer keeps it.
\<close>

definition preserved :: "(token list \<Rightarrow> tstate \<Rightarrow> bool) \<Rightarrow> bool" where
  "preserved P =
    ((\<forall>acc st pfx. P acc st \<longrightarrow> P acc (st\<lparr>prefix := pfx\<rparr>)) \<and>
     (\<forall>acc st start initial toks st'. P acc st \<longrightarrow>
         indentation st (lnum st, int start) start initial = Inr (toks, st') \<longrightarrow>
         P (acc @ toks) st') \<and>
     (\<forall>acc st line pos start e toks st' pos' brk. P acc st \<longrightarrow>
         pseudomatch line pos = Some (prefix st, start, e) \<longrightarrow>
         classify line st start e = Inr (toks, st', pos', brk) \<longrightarrow>
         P (acc @ toks) st') \<and>
     (\<forall>acc st txt pos. P acc st \<longrightarrow> P (acc @ [Token ERRORTOKEN txt (lnum st, int pos) []]) st) \<and>
     (\<forall>acc st. P acc st \<longrightarrow> P acc (st\<lparr>lnum := lnum st + 1\<rparr>)) \<and>
     (\<forall>acc st line cl. P acc st \<longrightarrow> contstr st \<noteq> [] \<longrightarrow>
         P acc (st\<lparr>contstr := contstr st @ line, contline := Some (cl @ line)\<rparr>)) \<and>
     (\<forall>acc st line pos cs. P acc st \<longrightarrow> contstr st \<noteq> [] \<longrightarrow> contstr_start st = Some cs \<longrightarrow>
         P (acc @ [Token STRING (contstr st @ take pos line) cs (prefix st)])
           (st\<lparr>contstr := [], contline := None\<rparr>)) \<and>
     (\<forall>acc st cs. P acc st \<longrightarrow> contstr st \<noteq> [] \<longrightarrow> contstr_start st = Some cs \<longrightarrow>
         P (acc @ [Token ERRORTOKEN (contstr st) cs (prefix st)]) st))"

lemma preservedD:
  assumes "preserved P" "P acc st"
  shows "P acc (st\<lparr>prefix := pfx\<rparr>)"
    and "indentation st (lnum st, int start) start initial = Inr (toks, st') \<Longrightarrow> P (acc @ toks) st'"
    and "pseudomatch line pos = Some (prefix st, start, e) \<Longrightarrow>
         classify line st start e = Inr (toks, st', pos', brk) \<Longrightarrow> P (acc @ toks) st'"
    and "P (acc @ [Token ERRORTOKEN txt (lnum st, int pos) []]) st"
    and "P acc (st\<lparr>lnum := lnum st + 1\<rparr>)"
    and "contstr st \<noteq> [] \<Longrightarrow> P acc (st\<lparr>contstr := contstr st @ line, contline := Some (cl @ line)\<rparr>)"
    and "contstr st \<noteq> [] \<Longrightarrow> contstr_start st = Some cs \<Longrightarrow>
         P (acc @ [Token STRING (contstr st @ take pos line) cs (prefix st)])
           (st\<lparr>contstr := [], contline := None\<rparr>)"
    and "contstr st \<noteq> [] \<Longrightarrow> contstr_start st = Some cs \<Longrightarrow>
         P (acc @ [Token ERRORTOKEN (contstr st) cs (prefix st)]) st"
proof -
  note c = assms(1)[unfolded preserved_def]
  note c1 = c[THEN conjunct1]
  note c2 = c[THEN conjunct2, THEN conjunct1]
  note c3 = c[THEN conjunct2, THEN conjunct2, THEN conjunct1]
  note c4 = c[THEN conjunct2, THEN conjunct2, THEN conjunct2, THEN conjunct1]
  note c5 = c[THEN conjunct2, THEN conjunct2, THEN conjunct2, THEN conjunct2, THEN conjunct1]
  note c6 = c[THEN conjunct2, THEN conjunct2, THEN conjunct2, THEN conjunct2, THEN conjunct2,
      THEN conjunct1]
  note c7 = c[THEN conjunct2, THEN conjunct2, THEN conjunct2, THEN conjunct2, THEN conjunct2,
      THEN conjunct2, THEN conjunct1]
  note c8 = c[THEN conjunct2, THEN conjunct2, THEN conjunct2, THEN conjunct2, THEN conjunct2,
      THEN conjunct2, THEN conjunct2]
  show "P acc (st\<lparr>prefix := pfx\<rparr>)" by (rule c1[rule_format, OF assms(2)])
  show "indentation st (lnum st, int start) start initial = Inr (toks, st') \<Longrightarrow> P (acc @ toks) st'"
    by (rule c2[rule_format, OF assms(2)])
  show "pseudomatch line pos = Some (prefix st, start, e) \<Longrightarrow>
         classify line st start e = Inr (toks, st', pos', brk) \<Longrightarrow> P (acc @ toks) st'"
    by (rule c3[rule_format, OF assms(2)])
  show "P (acc @ [Token ERRORTOKEN txt (lnum st, int pos) []]) st"
    by (rule c4[rule_format, OF assms(2)])
  show "P acc (st\<lparr>lnum := lnum st + 1\<rparr>)" by (rule c5[rule_format, OF assms(2)])
  show "contstr st \<noteq> [] \<Longrightarrow> P acc (st\<lparr>contstr := contstr st @ line, contline := Some (cl @ line)\<rparr>)"
    by (rule c6[rule_format, OF assms(2)])
  show "contstr st \<noteq> [] \<Longrightarrow> contstr_start st = Some cs \<Longrightarrow>
         P (acc @ [Token STRING (contstr st @ take pos line) cs (prefix st)])
           (st\<lparr>contstr := [], contline := None\<rparr>)"
    by (rule c7[rule_format, OF assms(2)])
  show "contstr st \<noteq> [] \<Longrightarrow> contstr_start st = Some cs \<Longrightarrow>
         P (acc @ [Token ERRORTOKEN (contstr st) cs (prefix st)]) st"
    by (rule c8[rule_format, OF assms(2)])
qed

lemma scan_step_preserved:
  assumes P: "preserved P" and a: "P acc st"
    and s: "scan_step line st pos = Inr (toks, st', pos', brk)"
  shows "P (acc @ toks) st'"
  using s
proof (cases rule: scan_step_cases)
  case error
  with preservedD(4)[OF P a] show ?thesis by simp
next
  case (match pfx start e toks1 st2 toks2)
  let ?st1 = "st\<lparr>prefix := pfx\<rparr>"
  from preservedD(1)[OF P a] have 1: "P acc ?st1" .
  from match(2) have i: "indentation ?st1 (lnum ?st1, int start) start (line ! start) = Inr (toks1, st2)"
    by simp
  from preservedD(2)[OF P 1 i] have 2: "P (acc @ toks1) st2" .
  from indentation_prefix[OF match(2)] have "prefix st2 = pfx" by simp
  with match(1) have "pseudomatch line pos = Some (prefix st2, start, e)" by simp
  from preservedD(3)[OF P 2 this match(3)] match(4) show ?thesis by simp
qed

lemma scan_loop_preserved:
  assumes P: "preserved P"
  shows "P acc st \<Longrightarrow> scan_loop line st pos = Inr (toks, st') \<Longrightarrow> P (acc @ toks) st'"
proof (induction line st pos arbitrary: acc toks rule: scan_loop.induct)
  case (1 line st pos)
  show ?case
  proof (cases "pos < length line")
    case False
    with "1.prems" show ?thesis by (subst (asm) scan_loop.simps) auto
  next
    case True
    with "1.prems"(2) obtain toks1 st1 pos1 brk where
      s: "scan_step line st pos = Inr (toks1, st1, pos1, brk)"
      by (subst (asm) scan_loop.simps) (auto split: sum.splits)
    from scan_step_preserved[OF P "1.prems"(1) s] have p1: "P (acc @ toks1) st1" .
    show ?thesis
    proof (cases brk)
      case True
      with "1.prems"(2) s \<open>pos < length line\<close> p1 show ?thesis
        by (subst (asm) scan_loop.simps) auto
    next
      case False
      with "1.prems"(2) s \<open>pos < length line\<close> obtain toks2 where
        r: "scan_loop line st1 pos1 = Inr (toks2, st')" and t: "toks = toks1 @ toks2"
        by (subst (asm) scan_loop.simps) (auto split: sum.splits)
      from "1.IH"[OF \<open>pos < length line\<close> s refl refl refl False p1 r] t show ?thesis by simp
    qed
  qed
qed

lemma tokenize_line_preserved:
  assumes P: "preserved P" and a: "P acc st" and t: "tokenize_line line st = Inr (toks, st')"
  shows "P (acc @ toks) st'"
proof -
  let ?st = "st\<lparr>lnum := lnum st + 1\<rparr>"
  from preservedD(5)[OF P a] have 1: "P acc ?st" .
  show ?thesis
  proof (cases "contstr st = []")
    case True
    with t have "scan_loop line ?st 0 = Inr (toks, st')" by (simp add: tokenize_line_def Let_def)
    from scan_loop_preserved[OF P 1 this] show ?thesis .
  next
    case False
    then have ne: "contstr ?st \<noteq> []" by simp
    from t False obtain r where r: "endprog st = Some (Some r)"
      by (auto simp: tokenize_line_def Let_def split: option.splits)
    show ?thesis
    proof (cases "rx_match r line 0")
      case None
      with t False r obtain cl where "st' = ?st\<lparr>contstr := contstr ?st @ line, contline := Some (cl @ line)\<rparr>"
        "toks = []"
        by (auto simp: tokenize_line_def Let_def split: option.splits)
      with preservedD(6)[OF P 1 ne, where line=line and cl=cl] show ?thesis by simp
    next
      case (Some p)
      with t False r obtain cs toks2 where cs: "contstr_start ?st = Some cs"
        and s: "scan_loop line (?st\<lparr>contstr := [], contline := None\<rparr>) p = Inr (toks2, st')"
        and tk: "toks = Token STRING (contstr ?st @ take p line) cs (prefix ?st) # toks2"
        by (auto simp: tokenize_line_def Let_def split: option.splits sum.splits)
      from preservedD(7)[OF P 1 ne cs, where pos=p and line=line]
      have "P (acc @ [Token STRING (contstr ?st @ take p line) cs (prefix ?st)])
              (?st\<lparr>contstr := [], contline := None\<rparr>)" .
      from scan_loop_preserved[OF P this s] tk show ?thesis by simp
    qed
  qed
qed

lemma at_eof_preserved:
  assumes P: "preserved P" and a: "P acc st" and t: "at_eof st = Inr (toks, st')"
  shows "P (acc @ toks) st'"
proof (cases "contstr st = []")
  case True
  with t a show ?thesis by (simp add: at_eof_def)
next
  case False
  show ?thesis
  proof (cases "contstr_start st")
    case None
    with t False show ?thesis by (simp add: at_eof_def)
  next
    case (Some cs)
    with t False have "toks = [Token ERRORTOKEN (contstr st) cs (prefix st)]" and "st' = st"
      by (auto simp: at_eof_def)
    with preservedD(8)[OF P a False Some] show ?thesis by simp
  qed
qed

lemma lines_loop_preserved:
  assumes P: "preserved P"
  shows "P acc st \<Longrightarrow> lines_loop lines st = Inr (toks, st') \<Longrightarrow> P (acc @ toks) st'"
proof (induction lines arbitrary: acc st toks)
  case Nil
  then show ?case using at_eof_preserved[OF P] by simp
next
  case (Cons line rest)
  show ?case
  proof (cases "line = []")
    case True
    with Cons.prems show ?thesis using at_eof_preserved[OF P] by simp
  next
    case False
    with Cons.prems(2) obtain toks1 st1 toks2 where
      t: "tokenize_line line st = Inr (toks1, st1)"
      and r: "lines_loop rest st1 = Inr (toks2, st')" and tk: "toks = toks1 @ toks2"
      by (auto split: sum.splits)
    from tokenize_line_preserved[OF P Cons.prems(1) t] have "P (acc @ toks1) st1" .
    from Cons.IH[OF this r] tk show ?thesis by simp
  qed
qed

section \<open>The end position of a token\<close>

lemma split_acc_length: "length (split_acc acc v) = Suc (count_list v NL)"
  by (induction v arbitrary: acc) auto

lemma split_acc_snoc: "split_acc acc (v @ [NL]) = split_acc acc v @ [[]]"
  by (induction v arbitrary: acc) auto

lemma split_acc_last:
  "length (last (split_acc acc v)) =
     (if NL \<in> set v then length (takeWhile (\<lambda>x. x \<noteq> NL) (rev v)) else length acc + length v)"
proof (induction v arbitrary: acc)
  case Nil
  then show ?case by simp
next
  case (Cons c cs)
  have ne: "split_acc a cs \<noteq> []" for a using split_acc_length[of a cs] by auto
  show ?case
  proof (cases "c = NL")
    case True
    show ?thesis
    proof (cases "NL \<in> set cs")
      case True
      then have "takeWhile (\<lambda>x. x \<noteq> NL) (rev cs @ [NL]) = takeWhile (\<lambda>x. x \<noteq> NL) (rev cs)"
        by (intro takeWhile_append1[of NL]) auto
      with True \<open>c = NL\<close> Cons.IH[of "[]"] ne show ?thesis by simp
    next
      case False
      then have "takeWhile (\<lambda>x. x \<noteq> NL) (rev cs @ [NL]) = rev cs"
        by (subst takeWhile_append2) auto
      with False \<open>c = NL\<close> Cons.IH[of "[]"] ne show ?thesis by simp
    qed
  next
    case False
    show ?thesis
    proof (cases "NL \<in> set cs")
      case True
      then have "takeWhile (\<lambda>x. x \<noteq> NL) (rev cs @ [c]) = takeWhile (\<lambda>x. x \<noteq> NL) (rev cs)"
        by (intro takeWhile_append1[of NL]) auto
      with True False Cons.IH[of "acc @ [c]"] show ?thesis by simp
    next
      case n: False
      with False Cons.IH[of "acc @ [c]"] show ?thesis by simp
    qed
  qed
qed

lemma endswith_NL: "endswith v [NL] \<longleftrightarrow> v \<noteq> [] \<and> last v = NL"
proof (cases v rule: rev_cases)
  case Nil
  then show ?thesis by (simp add: endswith_def)
next
  case (snoc ys y)
  then show ?thesis by (auto simp: endswith_def)
qed

text \<open>
  C3 (as amended). The end position of a token at \<open>(l, c)\<close> whose value \<open>v\<close> holds \<open>n\<close>
  characters \<open>'\n'\<close>. When \<open>v\<close> does not end with \<open>'\n'\<close>: \<open>(l, c + len(v))\<close> for \<open>n = 0\<close>, else
  \<open>(l + n, length of the text after the last '\n')\<close>. When \<open>v\<close> ends with \<open>'\n'\<close>, that last
  terminator belongs to the last line and opens no new one: \<open>(l, c + len(v))\<close> for \<open>n = 1\<close>,
  else \<open>(l + n - 1, length of the text after the last but one '\n', the final '\n' counted)\<close>.
  \<open>end_pos\<close> never raises.
\<close>

theorem end_pos_derived:
  "end_pos (Token ty v (l, c) p) =
     Inr (let n = int (count_list v NL)
          in if v \<noteq> [] \<and> last v = NL
             then (if n = 1 then (l, c + int (length v))
                   else (l + n - 1, int (Suc (length (takeWhile (\<lambda>x. x \<noteq> NL) (tl (rev v)))))))
             else (if n = 0 then (l, c + int (length v))
                   else (l + n, int (length (takeWhile (\<lambda>x. x \<noteq> NL) (rev v))))))"
proof (cases "v \<noteq> [] \<and> last v = NL")
  case False
  then have e: "\<not> endswith v [NL]" by (simp add: endswith_NL)
  have ne: "split_nl v \<noteq> []" using split_acc_length[of "[]" v] by (auto simp: split_nl_def)
  have "count_list v NL = 0 \<longleftrightarrow> NL \<notin> set v" by (simp add: count_list_0_iff)
  with False e ne show ?thesis
    using split_acc_length[of "[]" v] split_acc_last[of "[]" v]
    by (auto simp: end_pos_def Let_def split_nl_def)
next
  case True
  then obtain w where v: "v = w @ [NL]" by (cases v rule: rev_cases) auto
  have e: "endswith v [NL]" using True by (simp add: endswith_NL)
  have s: "split_nl v = split_nl w @ [[]]" by (simp add: v split_nl_def split_acc_snoc)
  have ne: "split_nl w \<noteq> []" using split_acc_length[of "[]" w] by (auto simp: split_nl_def)
  have c0: "count_list w NL = 0 \<longleftrightarrow> NL \<notin> set w" by (simp add: count_list_0_iff)
  have len: "length (split_nl w) = Suc (count_list w NL)" by (simp add: split_nl_def split_acc_length)
  have n: "count_list v NL = Suc (count_list w NL)" by (simp add: v)
  from e s ne True show ?thesis
    using len split_acc_last[of "[]" w] c0
    by (auto simp: end_pos_def Let_def n v split_nl_def)
qed

text \<open>A \<open>NewLine\<close> token \<open>"\n"\<close> at \<open>(1, 0)\<close> ends at \<open>(1, 1)\<close>, not at \<open>(2, 0)\<close>.\<close>

theorem end_pos_newline_counterexample:
  "end_pos (Token NEWLINE [NL] (1, 0) []) = Inr (1, 1) \<and>
   end_pos (Token NEWLINE [NL] (1, 0) []) \<noteq> Inr (1 + 1, 0)"
  by (simp add: end_pos_def split_nl_def endswith_def)

section \<open>The entry point and a run on a badly indented keyword line\<close>

definition tokens_of :: "fault + (token list \<times> tstate) \<Rightarrow> token list" where
  "tokens_of r = (case r of Inl e \<Rightarrow> [] | Inr (toks, st) \<Rightarrow> toks)"

lemma readlines_acc_concat: "concat (readlines_acc acc s) = acc @ s"
  by (induction s arbitrary: acc) auto

lemma readlines_acc_append:
  "readlines_acc acc (s @ NL # t) = readlines_acc acc (s @ [NL]) @ readlines_acc [] t"
  by (induction s arbitrary: acc) auto

text \<open>
  C4 (as amended). \<open>source_tokens\<close> appends \<open>'\n'\<close> to the source always, whether or not
  the source already ends with one: the text handed to the line tokenizer is
  \<open>source + '\n'\<close>, its lines concatenate to exactly that text, and for a source that
  already ends with \<open>'\n'\<close> the lines handed on are those of the source followed by one
  more physical line \<open>'\n'\<close>.
\<close>

theorem source_text_always_appends:
  "source_tokens source line_offset
     = generate_tokens (StringIO_readline (source @ [NL])) line_offset
   \<and> source_text source = source @ [NL]
   \<and> concat (StringIO_readline (source_text source)) = source @ [NL]
   \<and> StringIO_readline (source_text (s @ [NL])) = StringIO_readline (s @ [NL]) @ [[NL]]"
proof -
  have "readlines_acc [] ((s @ [NL]) @ [NL]) = readlines_acc [] (s @ [NL]) @ readlines_acc [] [NL]"
    using readlines_acc_append[of "[]" s "[NL]"] by simp
  then show ?thesis
    by (simp add: source_tokens_def source_text_def StringIO_readline_def readlines_acc_concat)
qed

text \<open>The source \<open>"x\n"\<close> already ends with a terminator and is not handed on unchanged.\<close>

theorem source_text_counterexample:
  "source_text ''x\<newline>'' \<noteq> ''x\<newline>''
   \<and> StringIO_readline (source_text ''x\<newline>'') = [''x\<newline>'', ''\<newline>'']"
  by (simp add: source_text_def StringIO_readline_def)

text \<open>
  C2 (as amended). Tokenizing \<open>"  pass\nclass X: pass\n"\<close> yields \<open>Name(pass)\<close>,
  \<open>NewLine\<close>, \<open>Name(class)\<close>, \<open>Name(X)\<close>, \<open>Operator(:)\<close>, \<open>Name(pass)\<close>, \<open>NewLine\<close>,
  \<open>EndMarker\<close>: the indentation of the first line is never pushed, so at \<open>class\<close> the
  stack is \<open>[0]\<close> and the recovery heuristic pops nothing.
\<close>

theorem class_line_tokens:
  "source_tokens ''  pass\<newline>class X: pass\<newline>'' 0 =
     Inr ([Token NAME ''pass'' (1, 2) ''  '', Token NEWLINE ''\<newline>'' (1, 6) [],
           Token NAME ''class'' (2, 0) [], Token NAME ''X'' (2, 6) '' '',
           Token OP '':'' (2, 7) [], Token NAME ''pass'' (2, 9) '' '',
           Token NEWLINE ''\<newline>'' (2, 13) [], Token ENDMARKER [] (3, 0) []],
          \<lparr>paren_level = 0, indents = [0], lnum = 3, contstr = [], contstr_start = None,
           endprog = None, contline = None, new_line = True, prefix = []\<rparr>)"
  by code_simp

text \<open>No \<open>Dedent\<close> is yielded for that source at all.\<close>

theorem class_line_counterexample:
  "DEDENT \<notin> set (map tok_type (tokens_of (source_tokens ''  pass\<newline>class X: pass\<newline>'' 0)))"
  by code_simp

end
